theory Spec2Isabelle
  imports Main "HOL-Library.Multiset"
begin

section \<open>Undefined behaviour and the two sentinels\<close>

text \<open>
  The C++ source has no exceptions and no error returns.  What it does have are places where
  the language leaves the behaviour undefined: a modulo by zero, an index past the end of a
  vector, a dereference of a pointer or list iterator that designates nothing, and
  \<open>back()\<close> on an empty list.  Each of them is a branch of the model: an operation returns
  \<open>Inl u\<close> where the C++ would run into undefined behaviour of kind \<open>u\<close>, and \<open>Inr r\<close>
  where it returns normally with result \<open>r\<close>.
\<close>

datatype ub =
    ModuloByZero
  | IndexOutOfRange
  | InvalidIterator
  | BackOfEmptyList
  | InvalidPointer

text \<open>The string literal returned by \<open>LRUCache::get\<close> on a miss (line 46), compared against
  in \<open>ShardManager::retrieve\<close> (lines 141 and 145).\<close>

definition MISS :: string where
  "MISS = ''[MISS]''"

text \<open>The string literal returned by \<open>ShardManager::retrieve\<close> when no node of the shard
  answered (line 147).\<close>

definition DB_FALLBACK :: string where
  "DB_FALLBACK = ''[MISS:DB fallback required]''"

section \<open>LRUCache\<close>

text \<open>
  \<open>std::list<pair<string, string>>\<close> is a sequence of list nodes; an iterator is the
  identity of a node and stays valid while the node is moved by \<open>splice\<close>.  A node is
  modelled as its identity paired with its payload, the list as the sequence of nodes from
  \<open>begin()\<close> to the back, and \<open>cacheMap\<close> as a partial map from keys to node identities.
\<close>

type_synonym iter = nat
type_synonym entry = "iter \<times> (string \<times> string)"

record LRUCache =
  capacity :: nat
  lruList :: "entry list"
  cacheMap :: "string \<rightharpoonup> iter"

text \<open>The constructor \<open>LRUCache(size_t cap)\<close>: both containers start empty.\<close>

definition LRUCache_new :: "nat \<Rightarrow> LRUCache" where
  "LRUCache_new cap = \<lparr>capacity = cap, lruList = [], cacheMap = Map.empty\<rparr>"

text \<open>Dereferencing an iterator: the node of the list that has this identity.\<close>

definition list_node :: "iter \<Rightarrow> entry list \<Rightarrow> entry option" where
  "list_node it xs = find (\<lambda>e. fst e = it) xs"

text \<open>\<open>lruList.splice(lruList.begin(), lruList, it)\<close>: the node is unlinked and relinked in
  front; an iterator that designates no node of the list is undefined behaviour.\<close>

definition splice_begin :: "iter \<Rightarrow> entry list \<Rightarrow> ub + entry list" where
  "splice_begin it xs =
     (case list_node it xs of
        None \<Rightarrow> Inl InvalidIterator
      | Some e \<Rightarrow> Inr (e # remove1 e xs))"

text \<open>\<open>it->second = value\<close>: the payload of the node with this identity gets a new second
  component.\<close>

fun assign_second :: "iter \<Rightarrow> string \<Rightarrow> entry list \<Rightarrow> entry list" where
  "assign_second it v [] = []"
| "assign_second it v (e # es) =
     (if fst e = it then (fst e, (fst (snd e), v)) # es else e # assign_second it v es)"

text \<open>\<open>push_front\<close> allocates a new node.  Its identity differs from every node in the
  list; the model takes the successor of the largest identity in use.\<close>

fun max_iter :: "entry list \<Rightarrow> iter" where
  "max_iter [] = 0"
| "max_iter (e # es) = max (fst e) (max_iter es)"

definition fresh_iter :: "entry list \<Rightarrow> iter" where
  "fresh_iter xs = Suc (max_iter xs)"

text \<open>\<open>LRUCache::get\<close>, lines 44 to 49.  The result is the returned string together with
  the cache after the call, since the call reorders the list.\<close>

definition get :: "LRUCache \<Rightarrow> string \<Rightarrow> ub + (string \<times> LRUCache)" where
  "get c key =
     (case cacheMap c key of
        None \<Rightarrow> Inr (MISS, c)
      | Some it \<Rightarrow>
          (case splice_begin it (lruList c) of
             Inl u \<Rightarrow> Inl u
           | Inr xs \<Rightarrow>
               (case list_node it xs of
                  None \<Rightarrow> Inl InvalidIterator
                | Some e \<Rightarrow> Inr (snd (snd e), c\<lparr>lruList := xs\<rparr>))))"

text \<open>Lines 62 and 63: \<open>push_front({key, value})\<close> and \<open>cacheMap[key] = lruList.begin()\<close>.\<close>

definition push_front_entry :: "LRUCache \<Rightarrow> string \<Rightarrow> string \<Rightarrow> LRUCache" where
  "push_front_entry c key val =
     c\<lparr>lruList := (fresh_iter (lruList c), (key, val)) # lruList c,
       cacheMap := (cacheMap c)(key \<mapsto> fresh_iter (lruList c))\<rparr>"

text \<open>\<open>LRUCache::put\<close>, lines 51 to 65.\<close>

definition put :: "LRUCache \<Rightarrow> string \<Rightarrow> string \<Rightarrow> ub + LRUCache" where
  "put c key val =
     (case cacheMap c key of
        Some it \<Rightarrow>
          (case splice_begin it (lruList c) of
             Inl u \<Rightarrow> Inl u
           | Inr xs \<Rightarrow> Inr (c\<lparr>lruList := assign_second it val xs\<rparr>))
      | None \<Rightarrow>
          (if capacity c \<le> length (lruList c) then
             (case lruList c of
                [] \<Rightarrow> Inl BackOfEmptyList
              | _ # _ \<Rightarrow>
                  Inr (push_front_entry
                    (c\<lparr>cacheMap := (cacheMap c)(fst (snd (last (lruList c))) := None),
                       lruList := butlast (lruList c)\<rparr>) key val))
           else Inr (push_front_entry c key val)))"

section \<open>CacheNode\<close>

text \<open>The constructor's call of \<open>registerWithZookeeper\<close> only talks to the external
  service and writes to the console; it touches no field and is left out.\<close>

record CacheNode =
  nodeId :: string
  isPrimary :: bool
  cache :: LRUCache

definition CacheNode_new :: "string \<Rightarrow> bool \<Rightarrow> nat \<Rightarrow> CacheNode" where
  "CacheNode_new ident primary sz =
     \<lparr>nodeId = ident, isPrimary = primary, cache = LRUCache_new sz\<rparr>"

text \<open>\<open>CacheNode::retrieve\<close>, lines 91 to 93.\<close>

definition CacheNode_retrieve :: "CacheNode \<Rightarrow> string \<Rightarrow> ub + (string \<times> CacheNode)" where
  "CacheNode_retrieve n key =
     (case get (cache n) key of
        Inl u \<Rightarrow> Inl u
      | Inr (val, c') \<Rightarrow> Inr (val, n\<lparr>cache := c'\<rparr>))"

text \<open>\<open>CacheNode::insert\<close>, lines 95 to 97.\<close>

definition CacheNode_insert :: "CacheNode \<Rightarrow> string \<Rightarrow> string \<Rightarrow> ub + CacheNode" where
  "CacheNode_insert n key val =
     (case put (cache n) key val of
        Inl u \<Rightarrow> Inl u
      | Inr c' \<Rightarrow> Inr (n\<lparr>cache := c'\<rparr>))"

section \<open>ShardManager\<close>

text \<open>
  The manager holds \<open>CacheNode*\<close> pointers, and the same node may be registered more than
  once, so the nodes live in a store from addresses to nodes and the vectors hold
  addresses.  An address outside the store stands for a null or dangling pointer.
\<close>

type_synonym ptr = nat
type_synonym heap = "ptr \<rightharpoonup> CacheNode"

record ShardManager =
  primaries :: "ptr list"
  replicas :: "ptr list list"
  primaryStatus :: "bool list"

text \<open>A default-constructed manager: the three vectors are empty.\<close>

definition ShardManager_new :: ShardManager where
  "ShardManager_new = \<lparr>primaries = [], replicas = [], primaryStatus = []\<rparr>"

text \<open>\<open>disablePrimary\<close>, lines 117 to 122; the console output is left out.\<close>

definition disablePrimary :: "ShardManager \<Rightarrow> nat \<Rightarrow> ShardManager" where
  "disablePrimary m idx =
     (if idx < length (primaryStatus m)
      then m\<lparr>primaryStatus := (primaryStatus m)[idx := False]\<rparr>
      else m)"

text \<open>\<open>getShardIndex\<close>, lines 124 to 127.  \<open>std::hash<string>\<close> is fixed by the C++
  library in use, not by this program, so it is a parameter.  The operator \<open>%\<close> with a zero
  right operand is undefined behaviour.\<close>

definition getShardIndex :: "(string \<Rightarrow> nat) \<Rightarrow> ShardManager \<Rightarrow> string \<Rightarrow> ub + nat" where
  "getShardIndex hasher m key =
     (if length (primaries m) = 0 then Inl ModuloByZero
      else Inr (hasher key mod length (primaries m)))"

text \<open>\<open>node->insert(key, value)\<close> through a pointer.\<close>

definition ptr_insert :: "heap \<Rightarrow> ptr \<Rightarrow> string \<Rightarrow> string \<Rightarrow> ub + heap" where
  "ptr_insert h p key val =
     (case h p of
        None \<Rightarrow> Inl InvalidPointer
      | Some n \<Rightarrow>
          (case CacheNode_insert n key val of
             Inl u \<Rightarrow> Inl u
           | Inr n' \<Rightarrow> Inr (h(p \<mapsto> n'))))"

text \<open>\<open>node->retrieve(key)\<close> through a pointer.\<close>

definition ptr_retrieve :: "heap \<Rightarrow> ptr \<Rightarrow> string \<Rightarrow> ub + (string \<times> heap)" where
  "ptr_retrieve h p key =
     (case h p of
        None \<Rightarrow> Inl InvalidPointer
      | Some n \<Rightarrow>
          (case CacheNode_retrieve n key of
             Inl u \<Rightarrow> Inl u
           | Inr (val, n') \<Rightarrow> Inr (val, h(p \<mapsto> n'))))"

text \<open>The loop of lines 132 to 134.\<close>

fun insert_replicas :: "heap \<Rightarrow> ptr list \<Rightarrow> string \<Rightarrow> string \<Rightarrow> ub + heap" where
  "insert_replicas h [] key val = Inr h"
| "insert_replicas h (r # rs) key val =
     (case ptr_insert h r key val of
        Inl u \<Rightarrow> Inl u
      | Inr h' \<Rightarrow> insert_replicas h' rs key val)"

text \<open>\<open>ShardManager::insert\<close>, lines 129 to 135.  \<open>operator[]\<close> of a vector past its
  end is undefined behaviour.\<close>

definition ShardManager_insert ::
  "(string \<Rightarrow> nat) \<Rightarrow> ShardManager \<Rightarrow> heap \<Rightarrow> string \<Rightarrow> string \<Rightarrow> ub + heap" where
  "ShardManager_insert hasher m h key val =
     (case getShardIndex hasher m key of
        Inl u \<Rightarrow> Inl u
      | Inr idx \<Rightarrow>
          (if length (primaryStatus m) \<le> idx then Inl IndexOutOfRange
           else
             (case (if primaryStatus m ! idx then ptr_insert h (primaries m ! idx) key val
                    else Inr h) of
                Inl u \<Rightarrow> Inl u
              | Inr h1 \<Rightarrow>
                  (if length (replicas m) \<le> idx then Inl IndexOutOfRange
                   else insert_replicas h1 (replicas m ! idx) key val))))"

text \<open>The loop of lines 143 to 146: \<open>Some val\<close> is the early \<open>return val\<close>, \<open>None\<close> is
  the loop running to its end.\<close>

fun retrieve_replicas :: "heap \<Rightarrow> ptr list \<Rightarrow> string \<Rightarrow> ub + (string option \<times> heap)" where
  "retrieve_replicas h [] key = Inr (None, h)"
| "retrieve_replicas h (r # rs) key =
     (case ptr_retrieve h r key of
        Inl u \<Rightarrow> Inl u
      | Inr (val, h') \<Rightarrow>
          (if val \<noteq> MISS then Inr (Some val, h') else retrieve_replicas h' rs key))"

text \<open>Lines 143 to 147, entered from the two places where the primary gave no answer.\<close>

definition retrieve_fallback ::
  "ShardManager \<Rightarrow> heap \<Rightarrow> nat \<Rightarrow> string \<Rightarrow> ub + (string \<times> heap)" where
  "retrieve_fallback m h idx key =
     (if length (replicas m) \<le> idx then Inl IndexOutOfRange
      else
        (case retrieve_replicas h (replicas m ! idx) key of
           Inl u \<Rightarrow> Inl u
         | Inr (Some val, h') \<Rightarrow> Inr (val, h')
         | Inr (None, h') \<Rightarrow> Inr (DB_FALLBACK, h')))"

text \<open>\<open>ShardManager::retrieve\<close>, lines 137 to 148.\<close>

definition ShardManager_retrieve ::
  "(string \<Rightarrow> nat) \<Rightarrow> ShardManager \<Rightarrow> heap \<Rightarrow> string \<Rightarrow> ub + (string \<times> heap)" where
  "ShardManager_retrieve hasher m h key =
     (case getShardIndex hasher m key of
        Inl u \<Rightarrow> Inl u
      | Inr idx \<Rightarrow>
          (if length (primaryStatus m) \<le> idx then Inl IndexOutOfRange
           else if primaryStatus m ! idx then
             (case ptr_retrieve h (primaries m ! idx) key of
                Inl u \<Rightarrow> Inl u
              | Inr (val, h1) \<Rightarrow>
                  (if val \<noteq> MISS then Inr (val, h1) else retrieve_fallback m h1 idx key))
           else retrieve_fallback m h idx key))"

section \<open>Notions the properties are stated with\<close>

text \<open>The store invariant of the data model: the size is bounded by the capacity, no key
  occurs twice in the list, no two nodes of the list share an identity, and the index and
  the list agree (the index is defined exactly on the keys of the list, and sends the key of
  each node to that node).\<close>

definition lru_inv :: "LRUCache \<Rightarrow> bool" where
  "lru_inv c \<longleftrightarrow>
     length (lruList c) \<le> capacity c \<and>
     distinct (map (fst \<circ> snd) (lruList c)) \<and>
     distinct (map fst (lruList c)) \<and>
     dom (cacheMap c) = set (map (fst \<circ> snd) (lruList c)) \<and>
     (\<forall>e \<in> set (lruList c). cacheMap c (fst (snd e)) = Some (fst e))"

text \<open>The key/value association a store holds, read off its list.\<close>

definition contents :: "LRUCache \<Rightarrow> string \<rightharpoonup> string" where
  "contents c = map_of (map snd (lruList c))"

text \<open>A sequence of calls on one store, for properties of every sequence of operations.\<close>

datatype cache_op = Get string | Put string string

fun run_ops :: "LRUCache \<Rightarrow> cache_op list \<Rightarrow> ub + LRUCache" where
  "run_ops c [] = Inr c"
| "run_ops c (Get key # ops) =
     (case get c key of Inl u \<Rightarrow> Inl u | Inr (val, c') \<Rightarrow> run_ops c' ops)"
| "run_ops c (Put key val # ops) =
     (case put c key val of Inl u \<Rightarrow> Inl u | Inr c' \<Rightarrow> run_ops c' ops)"

text \<open>What the node at an address holds for a key.\<close>

definition node_holds :: "heap \<Rightarrow> ptr \<Rightarrow> string \<Rightarrow> string option" where
  "node_holds h p key = (case h p of None \<Rightarrow> None | Some n \<Rightarrow> contents (cache n) key)"

text \<open>What the node at an address answers when it is queried for a key in store \<open>h\<close>.\<close>

definition node_answer :: "heap \<Rightarrow> ptr \<Rightarrow> string \<Rightarrow> string" where
  "node_answer h p key = (case ptr_retrieve h p key of Inl u \<Rightarrow> MISS | Inr (val, h') \<Rightarrow> val)"

text \<open>The first answer in a list of answers that is not the node-local miss string.\<close>

definition first_hit :: "string list \<Rightarrow> string option" where
  "first_hit vals = find (\<lambda>val. val \<noteq> MISS) vals"

text \<open>A shard is well formed when its index is within the three vectors and its primary
  and replica pointers designate nodes whose stores satisfy the store invariant.\<close>

definition shard_ok :: "ShardManager \<Rightarrow> heap \<Rightarrow> nat \<Rightarrow> bool" where
  "shard_ok m h idx \<longleftrightarrow>
     idx < length (primaries m) \<and> idx < length (primaryStatus m) \<and> idx < length (replicas m) \<and>
     (\<forall>p \<in> set (primaries m ! idx # replicas m ! idx).
        case h p of None \<Rightarrow> False | Some n \<Rightarrow> lru_inv (cache n))"

text \<open>The stores of a shard have a positive capacity, as the data model requires.\<close>

definition shard_capacity_pos :: "ShardManager \<Rightarrow> heap \<Rightarrow> nat \<Rightarrow> bool" where
  "shard_capacity_pos m h idx \<longleftrightarrow>
     (\<forall>p \<in> set (primaries m ! idx # replicas m ! idx).
        case h p of None \<Rightarrow> False | Some n \<Rightarrow> 0 < capacity (cache n))"

text \<open>The node at address \<open>p\<close> in \<open>h'\<close> is the node at \<open>p\<close> in \<open>h\<close> after
  \<open>insert(key, val)\<close>.\<close>

definition written :: "heap \<Rightarrow> heap \<Rightarrow> ptr \<Rightarrow> string \<Rightarrow> string \<Rightarrow> bool" where
  "written h h' p key val \<longleftrightarrow>
     (case h p of
        None \<Rightarrow> False
      | Some n \<Rightarrow> (case CacheNode_insert n key val of Inl u \<Rightarrow> False | Inr n' \<Rightarrow> h' p = Some n'))"

text \<open>The topology \<open>main\<close> builds (lines 174 to 190): two shards, each with a primary and
  two replicas, every store of capacity 3 and empty.  The nodes P0, R00, R01 of shard 0 get
  the addresses 10, 11, 12 and the nodes P1, R10, R11 of shard 1 the addresses 20, 21, 22.\<close>

definition main_manager :: ShardManager where
  "main_manager =
     \<lparr>primaries = [10, 20], replicas = [[11, 12], [21, 22]], primaryStatus = [True, True]\<rparr>"

definition main_heap :: heap where
  "main_heap =
     [10 \<mapsto> CacheNode_new ''P0'' True 3,
      11 \<mapsto> CacheNode_new ''R00'' False 3,
      12 \<mapsto> CacheNode_new ''R01'' False 3,
      20 \<mapsto> CacheNode_new ''P1'' True 3,
      21 \<mapsto> CacheNode_new ''R10'' False 3,
      22 \<mapsto> CacheNode_new ''R11'' False 3]"

text \<open>The string a call returned, when the call returned.\<close>

definition returned :: "ub + (string \<times> heap) \<Rightarrow> string option" where
  "returned r = (case r of Inl u \<Rightarrow> None | Inr (val, h') \<Rightarrow> Some val)"

text \<open>A store of capacity 3 whose only entry is the given pair, as \<open>put\<close> leaves a new
  store of capacity 3.\<close>

definition single_cache :: "string \<Rightarrow> string \<Rightarrow> LRUCache" where
  "single_cache key val = \<lparr>capacity = 3, lruList = [(1, (key, val))], cacheMap = [key \<mapsto> 1]\<rparr>"

text \<open>The nodes of \<open>main\<close> after \<open>insert("user:1", "Yash")\<close> when \<open>"user:1"\<close> belongs to
  shard 0: the primary and both replicas of shard 0 hold the pair.\<close>

definition yash_heap :: heap where
  "yash_heap =
     main_heap
       (10 \<mapsto> (CacheNode_new ''P0'' True 3)\<lparr>cache := single_cache ''user:1'' ''Yash''\<rparr>,
        11 \<mapsto> (CacheNode_new ''R00'' False 3)\<lparr>cache := single_cache ''user:1'' ''Yash''\<rparr>,
        12 \<mapsto> (CacheNode_new ''R01'' False 3)\<lparr>cache := single_cache ''user:1'' ''Yash''\<rparr>)"

text \<open>The nodes of \<open>main\<close> after \<open>insert("k", "[MISS]")\<close> when \<open>"k"\<close> belongs to shard 1:
  the primary and both replicas of shard 1 hold the pair.\<close>

definition sentinel_heap :: heap where
  "sentinel_heap =
     main_heap
       (20 \<mapsto> (CacheNode_new ''P1'' True 3)\<lparr>cache := single_cache ''k'' ''[MISS]''\<rparr>,
        21 \<mapsto> (CacheNode_new ''R10'' False 3)\<lparr>cache := single_cache ''k'' ''[MISS]''\<rparr>,
        22 \<mapsto> (CacheNode_new ''R11'' False 3)\<lparr>cache := single_cache ''k'' ''[MISS]''\<rparr>)"

section \<open>List nodes and iterators\<close>

lemma list_node_split:
  "list_node it xs = Some e \<Longrightarrow>
     \<exists>ys zs. xs = ys @ e # zs \<and> fst e = it \<and> (\<forall>y \<in> set ys. fst y \<noteq> it)"
proof (induction xs)
  case Nil
  then show ?case by (simp add: list_node_def)
next
  case (Cons x xs)
  show ?case
  proof (cases "fst x = it")
    case True
    with Cons.prems have "x = e" by (simp add: list_node_def)
    with True have "x # xs = [] @ e # xs \<and> fst e = it \<and> (\<forall>y \<in> set []. fst y \<noteq> it)" by simp
    then show ?thesis by blast
  next
    case False
    with Cons.prems have "list_node it xs = Some e" by (simp add: list_node_def)
    from Cons.IH [OF this] obtain ys zs where
      "xs = ys @ e # zs" "fst e = it" "\<forall>y \<in> set ys. fst y \<noteq> it" by blast
    with False have "x # xs = (x # ys) @ e # zs \<and> fst e = it \<and> (\<forall>y \<in> set (x # ys). fst y \<noteq> it)"
      by simp
    then show ?thesis by blast
  qed
qed

lemma list_node_None: "list_node it xs = None \<longleftrightarrow> it \<notin> fst ` set xs"
  by (auto simp: list_node_def find_None_iff image_iff)

lemma case_nonempty: "xs \<noteq> [] \<Longrightarrow> (case xs of [] \<Rightarrow> a | _ # _ \<Rightarrow> b) = b"
  by (cases xs) auto

lemma remove1_split: "\<forall>y \<in> set ys. fst y \<noteq> fst e \<Longrightarrow> remove1 e (ys @ e # zs) = ys @ zs"
  by (induction ys) auto

lemma splice_begin_split:
  "splice_begin it xs = Inr xs' \<Longrightarrow>
     \<exists>e ys zs. xs = ys @ e # zs \<and> xs' = e # ys @ zs \<and> fst e = it \<and> (\<forall>y \<in> set ys. fst y \<noteq> it)"
proof -
  assume a: "splice_begin it xs = Inr xs'"
  then obtain e where e: "list_node it xs = Some e" and xs': "xs' = e # remove1 e xs"
    by (auto simp: splice_begin_def split: option.splits)
  from list_node_split [OF e] obtain ys zs where
    s: "xs = ys @ e # zs" "fst e = it" "\<forall>y \<in> set ys. fst y \<noteq> it" by blast
  then have "remove1 e xs = ys @ zs" by (simp add: remove1_split)
  with xs' s show ?thesis by blast
qed

lemma max_iter_ge: "e \<in> set xs \<Longrightarrow> fst e \<le> max_iter xs"
  by (induction xs) auto

lemma fresh_iter_notin: "fresh_iter xs \<notin> fst ` set xs"
  using max_iter_ge by (fastforce simp: fresh_iter_def)

lemma inv_index_node:
  assumes "lru_inv c" "cacheMap c key = Some it"
  shows "\<exists>v ys zs. lruList c = ys @ (it, (key, v)) # zs \<and> (\<forall>y \<in> set ys. fst y \<noteq> it)
           \<and> list_node it (lruList c) = Some (it, (key, v))"
proof -
  from assms have "key \<in> set (map (fst \<circ> snd) (lruList c))"
    unfolding lru_inv_def by (metis domI)
  then obtain e where e: "e \<in> set (lruList c)" "fst (snd e) = key" by auto
  with assms have fe: "fst e = it" unfolding lru_inv_def by fastforce
  from e fe have "it \<in> fst ` set (lruList c)" by (metis imageI)
  then have "list_node it (lruList c) \<noteq> None" by (simp add: list_node_None)
  then obtain e' where e': "list_node it (lruList c) = Some e'" by blast
  from list_node_split [OF e'] obtain ys zs where
    s: "lruList c = ys @ e' # zs" "fst e' = it" "\<forall>y \<in> set ys. fst y \<noteq> it" by blast
  from assms have "distinct (map fst (lruList c))" by (simp add: lru_inv_def)
  with e fe s have "e' = e"
    by (metis distinct_map in_set_conv_decomp inj_on_eq_iff)
  with e fe have "e' = (it, (key, snd (snd e)))" by (metis prod.collapse)
  with s e' show ?thesis by metis
qed

lemma get_inv:
  assumes inv: "lru_inv c"
  shows "\<exists>c'. get c key = Inr (case contents c key of None \<Rightarrow> MISS | Some v \<Rightarrow> v, c') \<and>
           lru_inv c' \<and> contents c' = contents c \<and> capacity c' = capacity c"
proof (cases "cacheMap c key")
  case None
  with inv have "key \<notin> set (map (fst \<circ> snd) (lruList c))"
    unfolding lru_inv_def by (metis domIff)
  then have "contents c key = None"
    by (simp add: contents_def map_of_eq_None_iff image_image comp_def)
  with None inv show ?thesis by (simp add: get_def)
next
  case (Some it)
  from inv_index_node [OF inv Some] obtain v ys zs where
    s: "lruList c = ys @ (it, (key, v)) # zs" "\<forall>y \<in> set ys. fst y \<noteq> it"
       "list_node it (lruList c) = Some (it, (key, v))" by blast
  let ?e = "(it, (key, v))"
  let ?c' = "c\<lparr>lruList := ?e # ys @ zs\<rparr>"
  from s have sp: "splice_begin it (lruList c) = Inr (?e # ys @ zs)"
    using remove1_split [of ys ?e zs] by (simp add: splice_begin_def)
  have g: "get c key = Inr (v, ?c')"
    using Some sp by (simp add: get_def list_node_def)
  from inv s have dk: "distinct (map (fst \<circ> snd) (ys @ ?e # zs))" by (simp add: lru_inv_def)
  then have "map_of (map snd (ys @ ?e # zs)) key = Some v"
    by (intro map_of_is_SomeI) (auto simp: comp_def)
  with s have cv: "contents c key = Some v" by (simp add: contents_def)
  have "map_of (map snd (?e # ys @ zs)) = map_of (map snd (ys @ ?e # zs))"
    using dk by (intro iffD2 [OF map_of_inject_set]) (auto simp: comp_def)
  with s have cc: "contents ?c' = contents c" by (simp add: contents_def)
  from inv s have "lru_inv ?c'" unfolding lru_inv_def by auto
  with g cv cc show ?thesis by simp
qed

lemma put_inv:
  assumes inv: "lru_inv c" and cap: "0 < capacity c"
  shows "\<exists>c'. put c key val = Inr c' \<and> lru_inv c' \<and> capacity c' = capacity c \<and>
           contents c' key = Some val"
proof (cases "cacheMap c key")
  case (Some it)
  from inv_index_node [OF inv Some] obtain v ys zs where
    s: "lruList c = ys @ (it, (key, v)) # zs" "\<forall>y \<in> set ys. fst y \<noteq> it"
       "list_node it (lruList c) = Some (it, (key, v))" by blast
  let ?e = "(it, (key, v))"
  let ?c' = "c\<lparr>lruList := (it, (key, val)) # ys @ zs\<rparr>"
  from s have sp: "splice_begin it (lruList c) = Inr (?e # ys @ zs)"
    using remove1_split [of ys ?e zs] by (simp add: splice_begin_def)
  have p: "put c key val = Inr ?c'"
    using Some sp by (simp add: put_def)
  from inv s have "lru_inv ?c'" unfolding lru_inv_def by auto
  with p show ?thesis by (simp add: contents_def)
next
  case None
  with inv have knew: "key \<notin> set (map (fst \<circ> snd) (lruList c))"
    unfolding lru_inv_def by (metis domIff)
  show ?thesis
  proof (cases "capacity c \<le> length (lruList c)")
    case False
    let ?c' = "push_front_entry c key val"
    from None False have p: "put c key val = Inr ?c'" by (simp add: put_def)
    from inv knew False fresh_iter_notin [of "lruList c"] have "lru_inv ?c'"
      unfolding lru_inv_def push_front_entry_def by (auto simp: image_iff)
    with p show ?thesis by (simp add: contents_def push_front_entry_def)
  next
    case True
    with cap have ne: "lruList c \<noteq> []" by auto
    then obtain bs l where bl: "lruList c = bs @ [l]" by (metis rev_exhaust)
    let ?c1 = "c\<lparr>cacheMap := (cacheMap c)(fst (snd l) := None), lruList := bs\<rparr>"
    let ?c' = "push_front_entry ?c1 key val"
    from None True bl have p: "put c key val = Inr ?c'"
      by (simp add: put_def case_nonempty)
    from inv knew bl fresh_iter_notin [of bs] have "lru_inv ?c'"
      unfolding lru_inv_def push_front_entry_def by (auto simp: image_iff)
    with p show ?thesis by (simp add: contents_def push_front_entry_def)
  qed
qed

lemma get_promotes:
  assumes inv: "lru_inv c" and held: "contents c key = Some v"
  shows "\<exists>c' it rest. get c key = Inr (v, c') \<and> lruList c' = (it, (key, v)) # rest"
proof -
  from held have "(key, v) \<in> set (map snd (lruList c))"
    unfolding contents_def by (rule map_of_SomeD)
  then have "key \<in> set (map (fst \<circ> snd) (lruList c))" by force
  with inv obtain it where it: "cacheMap c key = Some it"
    unfolding lru_inv_def by (metis domD)
  from inv_index_node [OF inv it] obtain w ys zs where
    s: "lruList c = ys @ (it, (key, w)) # zs" "\<forall>y \<in> set ys. fst y \<noteq> it"
       "list_node it (lruList c) = Some (it, (key, w))" by blast
  let ?c' = "c\<lparr>lruList := (it, (key, w)) # ys @ zs\<rparr>"
  from s have sp: "splice_begin it (lruList c) = Inr ((it, (key, w)) # ys @ zs)"
    using remove1_split [of ys "(it, (key, w))" zs] by (simp add: splice_begin_def)
  have g: "get c key = Inr (w, ?c')"
    using it sp by (simp add: get_def list_node_def)
  from get_inv [OF inv, of key] held g have "w = v" by auto
  with g have "get c key = Inr (v, ?c') \<and> lruList ?c' = (it, (key, v)) # ys @ zs" by simp
  then show ?thesis by blast
qed

section \<open>Eviction and promotion on a store of capacity 3\<close>

text \<open>
  Claim C1.  On a store of capacity 3 that starts empty, four puts of pairwise distinct keys
  \<open>a\<close>, \<open>b\<close>, \<open>c\<close>, \<open>d\<close> in this order all return, and afterwards \<open>get a\<close> returns the
  node-local miss string and leaves the store as it is, while \<open>get\<close> of \<open>b\<close>, \<open>c\<close> and
  \<open>d\<close> return the values they were put with.  The list then holds \<open>d\<close>, \<open>c\<close>, \<open>b\<close>
  from front to back.
\<close>

theorem lru_eviction:
  assumes "distinct [a, b, c, d]"
  shows "\<exists>s1 s2 s3 s4.
           put (LRUCache_new 3) a va = Inr s1 \<and> put s1 b vb = Inr s2 \<and>
           put s2 c vc = Inr s3 \<and> put s3 d vd = Inr s4 \<and>
           get s4 a = Inr (MISS, s4) \<and>
           (\<exists>t. get s4 b = Inr (vb, t)) \<and>
           (\<exists>t. get s4 c = Inr (vc, t)) \<and>
           (\<exists>t. get s4 d = Inr (vd, t)) \<and>
           map snd (lruList s4) = [(d, vd), (c, vc), (b, vb)]"
  using assms
  by (auto simp add: put_def get_def LRUCache_new_def push_front_entry_def fresh_iter_def
      splice_begin_def list_node_def)

theorem lru_eviction_witness:
  "distinct [''a'', ''b'', ''c'', ''d''] \<and>
   (\<exists>s1 s2 s3 s4.
      put (LRUCache_new 3) ''a'' ''1'' = Inr s1 \<and> put s1 ''b'' ''2'' = Inr s2 \<and>
      put s2 ''c'' ''3'' = Inr s3 \<and> put s3 ''d'' ''4'' = Inr s4 \<and>
      get s4 ''a'' = Inr (MISS, s4) \<and>
      (\<exists>t. get s4 ''b'' = Inr (''2'', t)) \<and>
      (\<exists>t. get s4 ''c'' = Inr (''3'', t)) \<and>
      (\<exists>t. get s4 ''d'' = Inr (''4'', t)) \<and>
      map snd (lruList s4) = [(''d'', ''4''), (''c'', ''3''), (''b'', ''2'')])"
proof -
  have d: "distinct [''a'', ''b'', ''c'', ''d'']" by simp
  from lru_eviction [OF d, of "''1''" "''2''" "''3''" "''4''"] d show ?thesis by blast
qed

text \<open>
  Claim C2.  On a store of capacity 3 that starts empty, after puts of pairwise distinct keys
  \<open>a\<close>, \<open>b\<close>, \<open>c\<close>, the call \<open>get a\<close> returns the value of \<open>a\<close> and moves its entry to the
  front of the list; a following put of a fourth distinct key \<open>d\<close> then evicts \<open>b\<close>:
  afterwards \<open>get b\<close> returns the node-local miss string and \<open>get a\<close> returns the value
  of \<open>a\<close> (as do \<open>get c\<close> and \<open>get d\<close> for theirs).  In general, on a store that
  satisfies the store invariant, \<open>get\<close> of a key the store holds returns the value held
  and leaves the entry of the key at the front of the list.
\<close>

theorem recency_promotion:
  assumes "distinct [a, b, c, d]"
  shows "(\<exists>s1 s2 s3 s3' s4.
           put (LRUCache_new 3) a va = Inr s1 \<and> put s1 b vb = Inr s2 \<and>
           put s2 c vc = Inr s3 \<and> get s3 a = Inr (va, s3') \<and>
           map snd (lruList s3') = [(a, va), (c, vc), (b, vb)] \<and>
           put s3' d vd = Inr s4 \<and>
           get s4 b = Inr (MISS, s4) \<and>
           (\<exists>t. get s4 a = Inr (va, t)) \<and>
           (\<exists>t. get s4 c = Inr (vc, t)) \<and>
           (\<exists>t. get s4 d = Inr (vd, t))) \<and>
         (lru_inv s \<and> contents s k = Some v \<longrightarrow>
            (\<exists>s' it rest. get s k = Inr (v, s') \<and> lruList s' = (it, (k, v)) # rest))"
proof
  from assms show "\<exists>s1 s2 s3 s3' s4.
           put (LRUCache_new 3) a va = Inr s1 \<and> put s1 b vb = Inr s2 \<and>
           put s2 c vc = Inr s3 \<and> get s3 a = Inr (va, s3') \<and>
           map snd (lruList s3') = [(a, va), (c, vc), (b, vb)] \<and>
           put s3' d vd = Inr s4 \<and>
           get s4 b = Inr (MISS, s4) \<and>
           (\<exists>t. get s4 a = Inr (va, t)) \<and>
           (\<exists>t. get s4 c = Inr (vc, t)) \<and>
           (\<exists>t. get s4 d = Inr (vd, t))"
    by (auto simp add: put_def get_def LRUCache_new_def push_front_entry_def fresh_iter_def
        splice_begin_def list_node_def)
next
  show "lru_inv s \<and> contents s k = Some v \<longrightarrow>
          (\<exists>s' it rest. get s k = Inr (v, s') \<and> lruList s' = (it, (k, v)) # rest)"
    using get_promotes [of s k v] by blast
qed

theorem recency_promotion_witness:
  "distinct [''a'', ''b'', ''c'', ''d''] \<and>
   (\<exists>s1 s2 s3 s3' s4.
      put (LRUCache_new 3) ''a'' ''1'' = Inr s1 \<and> put s1 ''b'' ''2'' = Inr s2 \<and>
      put s2 ''c'' ''3'' = Inr s3 \<and> get s3 ''a'' = Inr (''1'', s3') \<and>
      map snd (lruList s3') = [(''a'', ''1''), (''c'', ''3''), (''b'', ''2'')] \<and>
      put s3' ''d'' ''4'' = Inr s4 \<and>
      get s4 ''b'' = Inr (MISS, s4) \<and>
      (\<exists>t. get s4 ''a'' = Inr (''1'', t)) \<and>
      (\<exists>t. get s4 ''c'' = Inr (''3'', t)) \<and>
      (\<exists>t. get s4 ''d'' = Inr (''4'', t))) \<and>
   lru_inv \<lparr>capacity = 3, lruList = [(2, (''b'', ''2'')), (1, (''a'', ''1''))],
            cacheMap = [''a'' \<mapsto> 1, ''b'' \<mapsto> 2]\<rparr> \<and>
   contents \<lparr>capacity = 3, lruList = [(2, (''b'', ''2'')), (1, (''a'', ''1''))],
             cacheMap = [''a'' \<mapsto> 1, ''b'' \<mapsto> 2]\<rparr> ''a'' = Some ''1'' \<and>
   (\<exists>s' it rest.
      get \<lparr>capacity = 3, lruList = [(2, (''b'', ''2'')), (1, (''a'', ''1''))],
           cacheMap = [''a'' \<mapsto> 1, ''b'' \<mapsto> 2]\<rparr> ''a'' = Inr (''1'', s') \<and>
      lruList s' = (it, (''a'', ''1'')) # rest)"
proof -
  let ?s = "\<lparr>capacity = 3, lruList = [(2::nat, (''b'', ''2'')), (1, (''a'', ''1''))],
            cacheMap = [''a'' \<mapsto> 1::nat, ''b'' \<mapsto> 2]\<rparr>"
  have d: "distinct [''a'', ''b'', ''c'', ''d'']" by simp
  have i: "lru_inv ?s" by (simp add: lru_inv_def)
  have c: "contents ?s ''a'' = Some ''1''" by (simp add: contents_def)
  from recency_promotion [OF d, of "''1''" "''2''" "''3''" "''4''" ?s "''a''" "''1''"] d i c
  show ?thesis by blast
qed

section \<open>The store invariant\<close>

lemma lru_inv_new: "lru_inv (LRUCache_new cap)"
  by (simp add: lru_inv_def LRUCache_new_def)

lemma run_ops_inv:
  "lru_inv c \<Longrightarrow> 0 < capacity c \<Longrightarrow>
     \<exists>c'. run_ops c ops = Inr c' \<and> lru_inv c' \<and> capacity c' = capacity c"
proof (induction ops arbitrary: c)
  case Nil
  then show ?case by simp
next
  case (Cons op ops)
  show ?case
  proof (cases op)
    case (Get key)
    from get_inv [OF Cons.prems(1), of key] obtain c1 where
      c1: "get c key = Inr (case contents c key of None \<Rightarrow> MISS | Some v \<Rightarrow> v, c1)"
          "lru_inv c1" "capacity c1 = capacity c" by blast
    with Cons.prems(2) Cons.IH [of c1] Get show ?thesis by simp
  next
    case (Put key val)
    from put_inv [OF Cons.prems, of key val] obtain c1 where
      c1: "put c key val = Inr c1" "lru_inv c1" "capacity c1 = capacity c" by blast
    with Cons.prems(2) Cons.IH [of c1] Put show ?thesis by simp
  qed
qed

text \<open>
  Claim C7.  A newly constructed store satisfies the store invariant, and from a store of
  positive capacity that satisfies it every sequence of \<open>get\<close> and \<open>put\<close> calls returns
  and ends in a store of the same capacity that satisfies it again: at most \<open>capacity\<close>
  entries, no key twice, and index and list in agreement.
\<close>

theorem store_invariant_preserved:
  assumes "lru_inv c" and "0 < capacity c"
  shows "lru_inv (LRUCache_new cap) \<and>
         (\<exists>c'. run_ops c ops = Inr c' \<and> lru_inv c' \<and> capacity c' = capacity c)"
  using assms by (simp add: lru_inv_new run_ops_inv)

theorem store_invariant_preserved_witness:
  "lru_inv (LRUCache_new 3) \<and> 0 < capacity (LRUCache_new 3) \<and>
   (\<exists>c'. run_ops (LRUCache_new 3)
           [Put ''a'' ''1'', Put ''b'' ''2'', Put ''c'' ''3'', Get ''a'', Put ''d'' ''4'',
            Put ''c'' ''5'', Get ''b''] = Inr c' \<and>
         lru_inv c' \<and> capacity c' = capacity (LRUCache_new 3))"
proof -
  have i: "lru_inv (LRUCache_new 3)" by (simp add: lru_inv_def LRUCache_new_def)
  have p: "0 < capacity (LRUCache_new 3)" by (simp add: LRUCache_new_def)
  from store_invariant_preserved [OF i p] i p show ?thesis by blast
qed

section \<open>What a lookup leaves alone\<close>

lemma get_mset:
  assumes "get c key = Inr (val, c')"
  shows "mset (lruList c') = mset (lruList c) \<and> cacheMap c' = cacheMap c \<and>
         capacity c' = capacity c"
proof (cases "cacheMap c key")
  case None
  with assms show ?thesis by (simp add: get_def)
next
  case (Some it)
  with assms obtain xs where xs: "splice_begin it (lruList c) = Inr xs" "c' = c\<lparr>lruList := xs\<rparr>"
    by (auto simp: get_def split: sum.splits option.splits)
  from splice_begin_split [OF xs(1)] obtain e ys zs where
    "lruList c = ys @ e # zs" "xs = e # ys @ zs" by blast
  with xs show ?thesis by simp
qed

text \<open>
  Claim C9.  Whenever \<open>get\<close> returns, for a key that is present or one that is absent, the
  store afterwards has the same entries as a multiset (so the same keys, each with the
  same value), the same index and the same capacity: only the order of the list may differ.
  On a store that satisfies the store invariant \<open>get\<close> does return, and the key/value
  association is the same before and after.
\<close>

theorem get_changes_order_only:
  "(\<forall>val c'. get c key = Inr (val, c') \<longrightarrow>
      mset (lruList c') = mset (lruList c) \<and> cacheMap c' = cacheMap c \<and>
      capacity c' = capacity c) \<and>
   (lru_inv c \<longrightarrow> (\<exists>val c'. get c key = Inr (val, c') \<and> contents c' = contents c))"
proof (intro conjI allI impI)
  fix val c' assume "get c key = Inr (val, c')"
  from get_mset [OF this] show "mset (lruList c') = mset (lruList c)"
    and "cacheMap c' = cacheMap c" and "capacity c' = capacity c" by simp_all
next
  assume "lru_inv c"
  from get_inv [OF this, of key] show "\<exists>val c'. get c key = Inr (val, c') \<and> contents c' = contents c"
    by blast
qed

theorem get_changes_order_only_witness:
  "lru_inv \<lparr>capacity = 3, lruList = [(2, (''b'', ''2'')), (1, (''a'', ''1''))],
            cacheMap = [''a'' \<mapsto> 1, ''b'' \<mapsto> 2]\<rparr> \<and>
   (\<exists>val c'.
      get \<lparr>capacity = 3, lruList = [(2, (''b'', ''2'')), (1, (''a'', ''1''))],
           cacheMap = [''a'' \<mapsto> 1, ''b'' \<mapsto> 2]\<rparr> ''a'' = Inr (val, c') \<and>
      val = ''1'' \<and>
      map snd (lruList c') = [(''a'', ''1''), (''b'', ''2'')] \<and>
      mset (lruList c') = mset [(2, (''b'', ''2'')), (1, (''a'', ''1''))] \<and>
      cacheMap c' = [''a'' \<mapsto> 1, ''b'' \<mapsto> 2] \<and>
      capacity c' = 3 \<and>
      contents c' = contents \<lparr>capacity = 3, lruList = [(2, (''b'', ''2'')), (1, (''a'', ''1''))],
                              cacheMap = [''a'' \<mapsto> 1, ''b'' \<mapsto> 2]\<rparr>)"
proof -
  let ?c = "\<lparr>capacity = 3, lruList = [(2::nat, (''b'', ''2'')), (1, (''a'', ''1''))],
            cacheMap = [''a'' \<mapsto> 1::nat, ''b'' \<mapsto> 2]\<rparr>"
  let ?c' = "?c\<lparr>lruList := [(1, (''a'', ''1'')), (2, (''b'', ''2''))]\<rparr>"
  have i: "lru_inv ?c" by (simp add: lru_inv_def)
  have g: "get ?c ''a'' = Inr (''1'', ?c')"
    by (simp add: get_def splice_begin_def list_node_def)
  from get_changes_order_only [of ?c "''a''"] i g
  have "mset (lruList ?c') = mset (lruList ?c) \<and> cacheMap ?c' = cacheMap ?c \<and>
        capacity ?c' = capacity ?c \<and> contents ?c' = contents ?c"
    by auto
  with i g show ?thesis by simp
qed

section \<open>Writes through the manager\<close>

lemma put_front_same:
  "cacheMap c key = Some it \<Longrightarrow> lruList c = (it, (k, val)) # rest \<Longrightarrow> put c key val = Inr c"
  by (simp add: put_def splice_begin_def list_node_def)

lemma put_idem:
  assumes "put c key val = Inr c'"
  shows "put c' key val = Inr c'"
proof (cases "cacheMap c key")
  case (Some it)
  with assms obtain xs where xs: "splice_begin it (lruList c) = Inr xs"
      "c' = c\<lparr>lruList := assign_second it val xs\<rparr>"
    by (auto simp: put_def split: sum.splits)
  from splice_begin_split [OF xs(1)] obtain e ys zs where
    "xs = e # ys @ zs" "fst e = it" by blast
  with xs Some have "cacheMap c' key = Some it" "lruList c' = (it, (fst (snd e), val)) # ys @ zs"
    by simp_all
  then show ?thesis by (rule put_front_same)
next
  case None
  with assms obtain c0 where "c' = push_front_entry c0 key val"
    by (auto simp: put_def split: if_splits list.splits)
  then have "cacheMap c' key = Some (fresh_iter (lruList c0))"
    "lruList c' = (fresh_iter (lruList c0), (key, val)) # lruList c0"
    by (simp_all add: push_front_entry_def)
  then show ?thesis by (rule put_front_same)
qed

lemma CacheNode_insert_idem:
  "CacheNode_insert n key val = Inr n' \<Longrightarrow> CacheNode_insert n' key val = Inr n'"
  by (auto simp: CacheNode_insert_def put_idem split: sum.splits)

lemma CacheNode_insert_ok:
  "lru_inv (cache n) \<Longrightarrow> 0 < capacity (cache n) \<Longrightarrow> \<exists>n'. CacheNode_insert n key val = Inr n'"
  using put_inv [of "cache n" key val] by (auto simp: CacheNode_insert_def)

lemma written_iff:
  "written h h' p key val \<longleftrightarrow>
     (\<exists>n n'. h p = Some n \<and> CacheNode_insert n key val = Inr n' \<and> h' p = Some n')"
  by (auto simp: written_def split: option.splits sum.splits)

lemma written_upd_other: "q \<noteq> r \<Longrightarrow> written (h(r \<mapsto> x)) h' q key val = written h h' q key val"
  by (simp add: written_def)

lemma written_upd_same:
  "h r = Some n \<Longrightarrow> CacheNode_insert n key val = Inr n' \<Longrightarrow>
     written (h(r \<mapsto> n')) h' r key val \<Longrightarrow> written h h' r key val"
  using CacheNode_insert_idem [of n key val n'] by (simp add: written_def)

lemma insert_replicas_char:
  "\<forall>r \<in> set rs. \<exists>n n'. h r = Some n \<and> CacheNode_insert n key val = Inr n' \<Longrightarrow>
     \<exists>h'. insert_replicas h rs key val = Inr h' \<and>
          (\<forall>q. q \<notin> set rs \<longrightarrow> h' q = h q) \<and>
          (\<forall>r \<in> set rs. written h h' r key val)"
proof (induction rs arbitrary: h)
  case Nil
  then show ?case by simp
next
  case (Cons r rs)
  from Cons.prems obtain n n' where n: "h r = Some n" "CacheNode_insert n key val = Inr n'"
    by auto
  let ?h1 = "h(r \<mapsto> n')"
  have step: "ptr_insert h r key val = Inr ?h1" using n by (simp add: ptr_insert_def)
  have "\<forall>q \<in> set rs. \<exists>m m'. ?h1 q = Some m \<and> CacheNode_insert m key val = Inr m'"
    using Cons.prems n CacheNode_insert_idem [OF n(2)] by auto
  from Cons.IH [OF this] obtain h' where
    h': "insert_replicas ?h1 rs key val = Inr h'"
        "\<forall>q. q \<notin> set rs \<longrightarrow> h' q = ?h1 q"
        "\<forall>q \<in> set rs. written ?h1 h' q key val" by blast
  have run: "insert_replicas h (r # rs) key val = Inr h'" using step h'(1) by simp
  have frame: "\<forall>q. q \<notin> set (r # rs) \<longrightarrow> h' q = h q" using h'(2) by simp
  have wr: "written h h' r key val"
  proof (cases "r \<in> set rs")
    case True
    with h'(3) have "written ?h1 h' r key val" by blast
    with n show ?thesis by (rule written_upd_same)
  next
    case False
    with h'(2) have "h' r = Some n'" by simp
    with n show ?thesis by (simp add: written_iff)
  qed
  have "\<forall>q \<in> set rs. written h h' q key val"
  proof
    fix q assume q: "q \<in> set rs"
    show "written h h' q key val"
    proof (cases "q = r")
      case True
      with wr show ?thesis by simp
    next
      case False
      with h'(3) q show ?thesis by (metis written_upd_other)
    qed
  qed
  with run frame wr show ?case by simp
qed

lemma shard_ok_disablePrimary: "shard_ok (disablePrimary m i) h idx = shard_ok m h idx"
  by (simp add: shard_ok_def disablePrimary_def)

lemma shard_capacity_pos_disablePrimary:
  "shard_capacity_pos (disablePrimary m i) h idx = shard_capacity_pos m h idx"
  by (simp add: shard_capacity_pos_def disablePrimary_def)

lemma main_shard_ok: "shard_ok main_manager main_heap 0" "shard_ok main_manager main_heap 1"
  by (simp_all add: shard_ok_def main_manager_def main_heap_def CacheNode_new_def
      LRUCache_new_def lru_inv_def)

lemma main_shard_capacity_pos:
  "shard_capacity_pos main_manager main_heap 0" "shard_capacity_pos main_manager main_heap 1"
  by (simp_all add: shard_capacity_pos_def main_manager_def main_heap_def CacheNode_new_def
      LRUCache_new_def)

lemma insert_char:
  assumes idx: "idx = hasher key mod length (primaries m)"
    and ok: "shard_ok m h idx" and cap: "shard_capacity_pos m h idx"
  shows "\<exists>h'. ShardManager_insert hasher m h key val = Inr h' \<and>
           (\<forall>r \<in> set (replicas m ! idx). written h h' r key val) \<and>
           (primaryStatus m ! idx \<longrightarrow> written h h' (primaries m ! idx) key val) \<and>
           (\<not> primaryStatus m ! idx \<and> primaries m ! idx \<notin> set (replicas m ! idx) \<longrightarrow>
              h' (primaries m ! idx) = h (primaries m ! idx)) \<and>
           (\<forall>q. q \<notin> set (primaries m ! idx # replicas m ! idx) \<longrightarrow> h' q = h q)"
proof -
  let ?p = "primaries m ! idx" and ?rs = "replicas m ! idx"
  from ok have len: "idx < length (primaries m)" "idx < length (primaryStatus m)"
      "idx < length (replicas m)" by (simp_all add: shard_ok_def)
  then have gi: "getShardIndex hasher m key = Inr idx" using idx by (auto simp: getShardIndex_def)
  have can: "\<forall>q \<in> set (?p # ?rs). \<exists>n n'. h q = Some n \<and> CacheNode_insert n key val = Inr n'"
  proof
    fix q assume "q \<in> set (?p # ?rs)"
    with ok cap obtain n where "h q = Some n" "lru_inv (cache n)" "0 < capacity (cache n)"
      unfolding shard_ok_def shard_capacity_pos_def by (fastforce split: option.splits)
    with CacheNode_insert_ok [of n key val] show "\<exists>n n'. h q = Some n \<and> CacheNode_insert n key val = Inr n'"
      by blast
  qed
  show ?thesis
  proof (cases "primaryStatus m ! idx")
    case False
    from can have "\<forall>r \<in> set ?rs. \<exists>n n'. h r = Some n \<and> CacheNode_insert n key val = Inr n'" by simp
    from insert_replicas_char [OF this] obtain h' where
      h': "insert_replicas h ?rs key val = Inr h'" "\<forall>q. q \<notin> set ?rs \<longrightarrow> h' q = h q"
          "\<forall>r \<in> set ?rs. written h h' r key val" by blast
    have "ShardManager_insert hasher m h key val = Inr h'"
      using gi len False h'(1) by (simp add: ShardManager_insert_def)
    with h' False show ?thesis by simp
  next
    case True
    from can obtain n n' where n: "h ?p = Some n" "CacheNode_insert n key val = Inr n'" by auto
    let ?h1 = "h(?p \<mapsto> n')"
    have step: "ptr_insert h ?p key val = Inr ?h1" using n by (simp add: ptr_insert_def)
    have "\<forall>r \<in> set ?rs. \<exists>k k'. ?h1 r = Some k \<and> CacheNode_insert k key val = Inr k'"
      using can CacheNode_insert_idem [OF n(2)] by auto
    from insert_replicas_char [OF this] obtain h' where
      h': "insert_replicas ?h1 ?rs key val = Inr h'" "\<forall>q. q \<notin> set ?rs \<longrightarrow> h' q = ?h1 q"
          "\<forall>r \<in> set ?rs. written ?h1 h' r key val" by blast
    have run: "ShardManager_insert hasher m h key val = Inr h'"
      using gi len True step h'(1) by (simp add: ShardManager_insert_def)
    have wp: "written h h' ?p key val"
    proof (cases "?p \<in> set ?rs")
      case True
      with h'(3) have "written ?h1 h' ?p key val" by blast
      with n show ?thesis by (rule written_upd_same)
    next
      case False
      with h'(2) have "h' ?p = Some n'" by simp
      with n show ?thesis by (simp add: written_iff)
    qed
    have wr: "\<forall>r \<in> set ?rs. written h h' r key val"
    proof
      fix r assume r: "r \<in> set ?rs"
      show "written h h' r key val"
      proof (cases "r = ?p")
        case True
        with wp show ?thesis by simp
      next
        case False
        with h'(3) r show ?thesis by (metis written_upd_other)
      qed
    qed
    have frame: "\<forall>q. q \<notin> set (?p # ?rs) \<longrightarrow> h' q = h q" using h'(2) by simp
    from run wp wr frame True show ?thesis by simp
  qed
qed

lemma written_holds:
  assumes "written h h' p key val" and "h p = Some n" and "lru_inv (cache n)"
    and "0 < capacity (cache n)"
  shows "node_holds h' p key = Some val"
proof -
  from put_inv [OF assms(3,4), of key val] obtain c' where
    c': "put (cache n) key val = Inr c'" "contents c' key = Some val" by blast
  then have "CacheNode_insert n key val = Inr (n\<lparr>cache := c'\<rparr>)"
    by (simp add: CacheNode_insert_def)
  with assms(1,2) have "h' p = Some (n\<lparr>cache := c'\<rparr>)" by (simp add: written_def)
  with c'(2) show ?thesis by (simp add: node_holds_def)
qed

lemma shard_written_holds:
  assumes "shard_ok m h idx" "shard_capacity_pos m h idx"
    and "p \<in> set (primaries m ! idx # replicas m ! idx)" and "written h h' p key val"
  shows "node_holds h' p key = Some val"
proof -
  from assms(1-3) obtain n where "h p = Some n" "lru_inv (cache n)" "0 < capacity (cache n)"
    unfolding shard_ok_def shard_capacity_pos_def by (fastforce split: option.splits)
  with assms(4) show ?thesis by (intro written_holds)
qed

text \<open>
  Claim C4.  Let \<open>idx\<close> be the shard of the key, in a well-formed shard whose stores have
  positive capacity.  Then \<open>insert\<close> returns, and in the store of nodes it leaves: every
  replica of the shard is the replica it was with \<open>insert(key, val)\<close> applied, and holds
  \<open>val\<close> for the key, whether or not the primary is alive; the primary has
  \<open>insert(key, val)\<close> applied and holds \<open>val\<close> for the key if it is alive; a primary that
  is not alive (and is not also registered among the shard's replicas) is exactly as
  before; and no node outside the shard changes.
\<close>

theorem insert_fan_out:
  assumes idx: "idx = hasher key mod length (primaries m)"
    and ok: "shard_ok m h idx" and cap: "shard_capacity_pos m h idx"
  shows "\<exists>h'. ShardManager_insert hasher m h key val = Inr h' \<and>
           (\<forall>r \<in> set (replicas m ! idx).
              written h h' r key val \<and> node_holds h' r key = Some val) \<and>
           (primaryStatus m ! idx \<longrightarrow>
              written h h' (primaries m ! idx) key val \<and>
              node_holds h' (primaries m ! idx) key = Some val) \<and>
           (\<not> primaryStatus m ! idx \<and> primaries m ! idx \<notin> set (replicas m ! idx) \<longrightarrow>
              h' (primaries m ! idx) = h (primaries m ! idx)) \<and>
           (\<forall>q. q \<notin> set (primaries m ! idx # replicas m ! idx) \<longrightarrow> h' q = h q)"
proof -
  from insert_char [of idx hasher key m h val] idx ok cap obtain h' where
    h': "ShardManager_insert hasher m h key val = Inr h'"
        "\<forall>r \<in> set (replicas m ! idx). written h h' r key val"
        "primaryStatus m ! idx \<longrightarrow> written h h' (primaries m ! idx) key val"
        "\<not> primaryStatus m ! idx \<and> primaries m ! idx \<notin> set (replicas m ! idx) \<longrightarrow>
           h' (primaries m ! idx) = h (primaries m ! idx)"
        "\<forall>q. q \<notin> set (primaries m ! idx # replicas m ! idx) \<longrightarrow> h' q = h q"
    by blast
  have "\<forall>r \<in> set (replicas m ! idx). node_holds h' r key = Some val"
    using h'(2) shard_written_holds [OF ok cap] by simp
  moreover have "primaryStatus m ! idx \<longrightarrow> node_holds h' (primaries m ! idx) key = Some val"
    using h'(3) shard_written_holds [OF ok cap] by simp
  ultimately show ?thesis using h' by blast
qed

theorem insert_fan_out_witness:
  "(0::nat) = length ''user:1'' mod length (primaries (disablePrimary main_manager 0)) \<and>
   shard_ok (disablePrimary main_manager 0) main_heap 0 \<and>
   shard_capacity_pos (disablePrimary main_manager 0) main_heap 0 \<and>
   \<not> primaryStatus (disablePrimary main_manager 0) ! 0 \<and>
   primaries (disablePrimary main_manager 0) ! 0 \<notin> set (replicas (disablePrimary main_manager 0) ! 0) \<and>
   (\<exists>h'. ShardManager_insert length (disablePrimary main_manager 0) main_heap ''user:1'' ''Yash''
           = Inr h' \<and>
         written main_heap h' 11 ''user:1'' ''Yash'' \<and>
         written main_heap h' 12 ''user:1'' ''Yash'' \<and>
         node_holds h' 11 ''user:1'' = Some ''Yash'' \<and>
         node_holds h' 12 ''user:1'' = Some ''Yash'' \<and>
         h' 10 = main_heap 10 \<and> h' 20 = main_heap 20 \<and> h' 21 = main_heap 21 \<and>
         h' 22 = main_heap 22) \<and>
   primaryStatus main_manager ! 0 \<and>
   (\<exists>h'. ShardManager_insert length main_manager main_heap ''user:1'' ''Yash'' = Inr h' \<and>
         written main_heap h' 10 ''user:1'' ''Yash'' \<and>
         written main_heap h' 11 ''user:1'' ''Yash'' \<and>
         written main_heap h' 12 ''user:1'' ''Yash'')"
proof -
  let ?m = "disablePrimary main_manager 0"
  have m: "?m = \<lparr>primaries = [10, 20], replicas = [[11, 12], [21, 22]],
            primaryStatus = [False, True]\<rparr>"
    by (simp add: disablePrimary_def main_manager_def)
  have i: "(0::nat) = length ''user:1'' mod length (primaries ?m)" by code_simp
  have j: "(0::nat) = length ''user:1'' mod length (primaries main_manager)" by code_simp
  have ok: "shard_ok ?m main_heap 0"
    using main_shard_ok(1) by (simp only: shard_ok_disablePrimary)
  have cap: "shard_capacity_pos ?m main_heap 0"
    using main_shard_capacity_pos(1) by (simp only: shard_capacity_pos_disablePrimary)
  have d: "\<not> primaryStatus ?m ! 0" "primaries ?m ! 0 \<notin> set (replicas ?m ! 0)"
    by (simp_all add: m)
  have a: "primaryStatus main_manager ! 0" by (simp add: main_manager_def)
  from insert_fan_out [where hasher = length and key = "''user:1''" and val = "''Yash''", OF i ok cap] d
  have 1: "\<exists>h'. ShardManager_insert length ?m main_heap ''user:1'' ''Yash'' = Inr h' \<and>
         written main_heap h' 11 ''user:1'' ''Yash'' \<and>
         written main_heap h' 12 ''user:1'' ''Yash'' \<and>
         node_holds h' 11 ''user:1'' = Some ''Yash'' \<and>
         node_holds h' 12 ''user:1'' = Some ''Yash'' \<and>
         h' 10 = main_heap 10 \<and> h' 20 = main_heap 20 \<and> h' 21 = main_heap 21 \<and>
         h' 22 = main_heap 22"
    by (auto simp: m)
  from insert_fan_out [where hasher = length and key = "''user:1''" and val = "''Yash''",
      OF j main_shard_ok(1) main_shard_capacity_pos(1)] a
  have 2: "\<exists>h'. ShardManager_insert length main_manager main_heap ''user:1'' ''Yash'' = Inr h' \<and>
         written main_heap h' 10 ''user:1'' ''Yash'' \<and>
         written main_heap h' 11 ''user:1'' ''Yash'' \<and>
         written main_heap h' 12 ''user:1'' ''Yash''"
    by (auto simp: main_manager_def)
  from i ok cap d a 1 2 show ?thesis by blast
qed

section \<open>Disabling a primary\<close>

text \<open>
  Claim C8.  \<open>disablePrimary\<close> returns a manager and has no failure branch; it neither takes
  nor returns the store of nodes.  It never changes the vectors of primaries and replicas
  nor the number of flags.  With an index in range the flag at the index becomes false and
  every other flag keeps its value; with an index out of range the manager is returned
  unchanged.
\<close>

theorem disablePrimary_effect:
  "primaries (disablePrimary m idx) = primaries m \<and>
   replicas (disablePrimary m idx) = replicas m \<and>
   length (primaryStatus (disablePrimary m idx)) = length (primaryStatus m) \<and>
   (idx < length (primaryStatus m) \<longrightarrow>
      primaryStatus (disablePrimary m idx) ! idx = False \<and>
      (\<forall>j. j \<noteq> idx \<longrightarrow> primaryStatus (disablePrimary m idx) ! j = primaryStatus m ! j)) \<and>
   (length (primaryStatus m) \<le> idx \<longrightarrow> disablePrimary m idx = m)"
  by (simp add: disablePrimary_def)

theorem disablePrimary_effect_witness:
  "(1::nat) < length (primaryStatus main_manager) \<and>
   primaryStatus (disablePrimary main_manager 1) ! 1 = False \<and>
   primaryStatus (disablePrimary main_manager 1) ! 0 = primaryStatus main_manager ! 0 \<and>
   primaries (disablePrimary main_manager 1) = primaries main_manager \<and>
   replicas (disablePrimary main_manager 1) = replicas main_manager \<and>
   length (primaryStatus main_manager) \<le> 2 \<and>
   disablePrimary main_manager 2 = main_manager"
proof -
  have a: "(1::nat) < length (primaryStatus main_manager)"
    and b: "length (primaryStatus main_manager) \<le> 2" by (simp_all add: main_manager_def)
  from disablePrimary_effect [of main_manager 1] disablePrimary_effect [of main_manager 2] a b
  show ?thesis by simp
qed

section \<open>The shard index on an empty topology\<close>

text \<open>
  Claim C6, evaluated on the code.  With no primary registered, \<open>getShardIndex\<close> takes the
  hash modulo zero, which is undefined behaviour and no defined rejection; \<open>insert\<close> and
  \<open>retrieve\<close> start with that call and inherit it.
\<close>

theorem getShardIndex_no_primaries:
  "getShardIndex hasher ShardManager_new key = Inl ModuloByZero \<and>
   ShardManager_insert hasher ShardManager_new h key val = Inl ModuloByZero \<and>
   ShardManager_retrieve hasher ShardManager_new h key = Inl ModuloByZero"
  by (simp add: getShardIndex_def ShardManager_insert_def ShardManager_retrieve_def
      ShardManager_new_def)

section \<open>Reads through the manager\<close>

lemma put_new_single: "put (LRUCache_new 3) key val = Inr (single_cache key val)"
  by (simp add: put_def LRUCache_new_def push_front_entry_def fresh_iter_def single_cache_def)

lemma main_heap_at:
  "main_heap 10 = Some (CacheNode_new ''P0'' True 3)"
  "main_heap 11 = Some (CacheNode_new ''R00'' False 3)"
  "main_heap 12 = Some (CacheNode_new ''R01'' False 3)"
  "main_heap 20 = Some (CacheNode_new ''P1'' True 3)"
  "main_heap 21 = Some (CacheNode_new ''R10'' False 3)"
  "main_heap 22 = Some (CacheNode_new ''R11'' False 3)"
  by (simp_all add: main_heap_def)

lemma main_index:
  "getShardIndex length main_manager ''user:1'' = Inr 0"
  "getShardIndex length main_manager ''user:5'' = Inr 0"
  "getShardIndex length main_manager ''k'' = Inr 1"
  by code_simp+

lemma main_fields:
  "length (primaryStatus main_manager) = 2" "length (replicas main_manager) = 2"
  "primaryStatus main_manager ! 0" "primaryStatus main_manager ! Suc 0"
  "primaries main_manager ! 0 = 10" "primaries main_manager ! Suc 0 = 20"
  "replicas main_manager ! 0 = [11, 12]" "replicas main_manager ! Suc 0 = [21, 22]"
  by (simp_all add: main_manager_def)

lemma CacheNode_insert_new:
  "CacheNode_insert (CacheNode_new ident primary 3) key val =
     Inr ((CacheNode_new ident primary 3)\<lparr>cache := single_cache key val\<rparr>)"
  by (simp add: CacheNode_insert_def CacheNode_new_def put_new_single)

lemma insert_yash:
  "ShardManager_insert length main_manager main_heap ''user:1'' ''Yash'' = Inr yash_heap"
  by (simp add: ShardManager_insert_def main_index main_fields ptr_insert_def
      main_heap_at CacheNode_insert_new yash_heap_def)

lemma insert_sentinel:
  "ShardManager_insert length main_manager main_heap ''k'' ''[MISS]'' = Inr sentinel_heap"
  by (simp add: ShardManager_insert_def main_index main_fields ptr_insert_def
      main_heap_at CacheNode_insert_new sentinel_heap_def)

lemma ptr_retrieve_ok:
  assumes "h p = Some n" "lru_inv (cache n)"
  shows "\<exists>n'. ptr_retrieve h p key =
               Inr (case contents (cache n) key of None \<Rightarrow> MISS | Some v \<Rightarrow> v, h(p \<mapsto> n')) \<and>
              lru_inv (cache n') \<and> contents (cache n') = contents (cache n)"
proof -
  from get_inv [OF assms(2), of key] obtain c' where
    "get (cache n) key = Inr (case contents (cache n) key of None \<Rightarrow> MISS | Some v \<Rightarrow> v, c')"
    "lru_inv c'" "contents c' = contents (cache n)" by blast
  with assms(1) have "ptr_retrieve h p key =
      Inr (case contents (cache n) key of None \<Rightarrow> MISS | Some v \<Rightarrow> v, h(p \<mapsto> n\<lparr>cache := c'\<rparr>)) \<and>
      lru_inv (cache (n\<lparr>cache := c'\<rparr>)) \<and> contents (cache (n\<lparr>cache := c'\<rparr>)) = contents (cache n)"
    by (simp add: ptr_retrieve_def CacheNode_retrieve_def)
  then show ?thesis by blast
qed

lemma node_answer_contents:
  "h p = Some n \<Longrightarrow> lru_inv (cache n) \<Longrightarrow>
     node_answer h p key = (case contents (cache n) key of None \<Rightarrow> MISS | Some v \<Rightarrow> v)"
  using ptr_retrieve_ok [of h p n key] by (auto simp: node_answer_def)

lemma node_answer_holds:
  "h p = Some n \<Longrightarrow> lru_inv (cache n) \<Longrightarrow>
     node_answer h p key = (case node_holds h p key of None \<Rightarrow> MISS | Some v \<Rightarrow> v)"
  by (simp add: node_answer_contents node_holds_def)

lemma node_answer_upd:
  assumes "h p = Some n" "lru_inv (cache n)" "lru_inv (cache n')"
    "contents (cache n') = contents (cache n)" "h q = Some k" "lru_inv (cache k)"
  shows "node_answer (h(p \<mapsto> n')) q key = node_answer h q key"
proof (cases "q = p")
  case True
  with assms show ?thesis
    using node_answer_contents [of "h(p \<mapsto> n')" p n' key] node_answer_contents [of h p n key]
    by simp
next
  case False
  then show ?thesis
    by (auto simp: node_answer_def ptr_retrieve_def split: option.splits sum.splits)
qed

lemma retrieve_replicas_char:
  "\<forall>r \<in> set rs. \<exists>n. h r = Some n \<and> lru_inv (cache n) \<Longrightarrow>
     \<exists>h'. retrieve_replicas h rs key = Inr (first_hit (map (\<lambda>r. node_answer h r key) rs), h') \<and>
          (\<forall>q. q \<notin> set rs \<longrightarrow> h' q = h q)"
proof (induction rs arbitrary: h)
  case Nil
  then show ?case by (simp add: first_hit_def)
next
  case (Cons r rs)
  from Cons.prems obtain n where n: "h r = Some n" "lru_inv (cache n)" by auto
  from ptr_retrieve_ok [of h r n key] n obtain n' where
    n': "ptr_retrieve h r key = Inr (case contents (cache n) key of None \<Rightarrow> MISS | Some v \<Rightarrow> v, h(r \<mapsto> n'))"
        "lru_inv (cache n')" "contents (cache n') = contents (cache n)" by blast
  let ?a = "node_answer h r key" and ?h1 = "h(r \<mapsto> n')"
  from n have a: "(case contents (cache n) key of None \<Rightarrow> MISS | Some v \<Rightarrow> v) = ?a"
    by (simp add: node_answer_contents)
  with n' have step: "ptr_retrieve h r key = Inr (?a, ?h1)" by simp
  show ?case
  proof (cases "?a = MISS")
    case False
    with step have "retrieve_replicas h (r # rs) key = Inr (Some ?a, ?h1)" by simp
    moreover from False have "first_hit (map (\<lambda>r. node_answer h r key) (r # rs)) = Some ?a"
      by (simp add: first_hit_def)
    ultimately show ?thesis by simp
  next
    case True
    have valid: "\<forall>q \<in> set rs. \<exists>k. ?h1 q = Some k \<and> lru_inv (cache k)"
      using Cons.prems n' by auto
    from Cons.IH [OF valid] obtain h' where
      h': "retrieve_replicas ?h1 rs key = Inr (first_hit (map (\<lambda>q. node_answer ?h1 q key) rs), h')"
          "\<forall>q. q \<notin> set rs \<longrightarrow> h' q = ?h1 q" by blast
    have "map (\<lambda>q. node_answer ?h1 q key) rs = map (\<lambda>q. node_answer h q key) rs"
    proof (rule map_cong [OF refl])
      fix q assume "q \<in> set rs"
      with Cons.prems obtain k where "h q = Some k" "lru_inv (cache k)" by auto
      with n n' show "node_answer ?h1 q key = node_answer h q key"
        by (intro node_answer_upd)
    qed
    with h' True step have "retrieve_replicas h (r # rs) key =
        Inr (first_hit (map (\<lambda>q. node_answer h q key) (r # rs)), h')"
      by (simp add: first_hit_def)
    with h'(2) show ?thesis by simp
  qed
qed

lemma retrieve_fallback_char:
  assumes "idx < length (replicas m)"
    and "\<forall>r \<in> set (replicas m ! idx). \<exists>n. h r = Some n \<and> lru_inv (cache n)"
  shows "\<exists>h'. retrieve_fallback m h idx key =
            Inr (case first_hit (map (\<lambda>r. node_answer h r key) (replicas m ! idx)) of
                   Some val \<Rightarrow> val | None \<Rightarrow> DB_FALLBACK, h')"
proof -
  from retrieve_replicas_char [OF assms(2), of key] obtain h' where
    "retrieve_replicas h (replicas m ! idx) key =
       Inr (first_hit (map (\<lambda>r. node_answer h r key) (replicas m ! idx)), h')" by blast
  with assms(1) show ?thesis
    by (cases "first_hit (map (\<lambda>r. node_answer h r key) (replicas m ! idx))")
      (simp_all add: retrieve_fallback_def)
qed

lemma retrieve_char:
  assumes idx: "idx = hasher key mod length (primaries m)" and ok: "shard_ok m h idx"
  shows "\<exists>h'. ShardManager_retrieve hasher m h key =
            Inr (if primaryStatus m ! idx \<and> node_answer h (primaries m ! idx) key \<noteq> MISS
                 then node_answer h (primaries m ! idx) key
                 else (case first_hit (map (\<lambda>r. node_answer h r key) (replicas m ! idx)) of
                         Some val \<Rightarrow> val | None \<Rightarrow> DB_FALLBACK), h') \<and>
           (primaryStatus m ! idx \<and> node_answer h (primaries m ! idx) key \<noteq> MISS \<longrightarrow>
              (\<forall>q. q \<noteq> primaries m ! idx \<longrightarrow> h' q = h q))"
proof -
  let ?p = "primaries m ! idx" and ?rs = "replicas m ! idx"
  let ?fb = "case first_hit (map (\<lambda>r. node_answer h r key) ?rs) of
               Some val \<Rightarrow> val | None \<Rightarrow> DB_FALLBACK"
  from ok have len: "idx < length (primaries m)" "idx < length (primaryStatus m)"
      "idx < length (replicas m)" by (simp_all add: shard_ok_def)
  then have gi: "getShardIndex hasher m key = Inr idx" using idx by (auto simp: getShardIndex_def)
  from ok have valid: "\<forall>q \<in> set (?p # ?rs). \<exists>n. h q = Some n \<and> lru_inv (cache n)"
    unfolding shard_ok_def by (auto split: option.splits)
  then have vrs: "\<forall>r \<in> set ?rs. \<exists>n. h r = Some n \<and> lru_inv (cache n)" by simp
  show ?thesis
  proof (cases "primaryStatus m ! idx")
    case False
    from retrieve_fallback_char [OF len(3) vrs, of key] obtain h' where
      "retrieve_fallback m h idx key = Inr (?fb, h')" by blast
    with gi len False have "ShardManager_retrieve hasher m h key = Inr (?fb, h')"
      by (simp add: ShardManager_retrieve_def)
    with False show ?thesis by simp
  next
    case True
    from valid obtain n where n: "h ?p = Some n" "lru_inv (cache n)" by auto
    from ptr_retrieve_ok [of h ?p n key] n obtain n' where
      n': "ptr_retrieve h ?p key =
             Inr (case contents (cache n) key of None \<Rightarrow> MISS | Some v \<Rightarrow> v, h(?p \<mapsto> n'))"
          "lru_inv (cache n')" "contents (cache n') = contents (cache n)" by blast
    let ?a = "node_answer h ?p key" and ?h1 = "h(?p \<mapsto> n')"
    from n n' have step: "ptr_retrieve h ?p key = Inr (?a, ?h1)"
      by (simp add: node_answer_contents)
    show ?thesis
    proof (cases "?a = MISS")
      case False
      with gi len True step have "ShardManager_retrieve hasher m h key = Inr (?a, ?h1)"
        by (simp add: ShardManager_retrieve_def)
      with True False show ?thesis by simp
    next
      case miss: True
      have v1: "\<forall>r \<in> set ?rs. \<exists>k. ?h1 r = Some k \<and> lru_inv (cache k)"
        using vrs n' by auto
      from retrieve_fallback_char [OF len(3) v1, of key] obtain h' where
        fb: "retrieve_fallback m ?h1 idx key =
               Inr (case first_hit (map (\<lambda>r. node_answer ?h1 r key) ?rs) of
                      Some val \<Rightarrow> val | None \<Rightarrow> DB_FALLBACK, h')" by blast
      have "map (\<lambda>r. node_answer ?h1 r key) ?rs = map (\<lambda>r. node_answer h r key) ?rs"
      proof (rule map_cong [OF refl])
        fix q assume "q \<in> set ?rs"
        with vrs obtain k where "h q = Some k" "lru_inv (cache k)" by auto
        with n n' show "node_answer ?h1 q key = node_answer h q key"
          by (intro node_answer_upd)
      qed
      with fb have "retrieve_fallback m ?h1 idx key = Inr (?fb, h')" by simp
      with gi len True step miss have "ShardManager_retrieve hasher m h key = Inr (?fb, h')"
        by (simp add: ShardManager_retrieve_def)
      with miss show ?thesis by simp
    qed
  qed
qed

lemma sentinels_differ: "DB_FALLBACK \<noteq> MISS"
  by (simp add: DB_FALLBACK_def MISS_def)

lemma first_hit_none: "\<forall>a \<in> set vals. a = MISS \<Longrightarrow> first_hit vals = None"
  by (induction vals) (auto simp: first_hit_def)

lemma lru_inv_single: "lru_inv (single_cache key val)"
  by (simp add: lru_inv_def single_cache_def)

lemma contents_single: "contents (single_cache key val) = [key \<mapsto> val]"
  by (simp add: contents_def single_cache_def)

lemma yash_heap_at:
  "yash_heap 10 = Some ((CacheNode_new ''P0'' True 3)\<lparr>cache := single_cache ''user:1'' ''Yash''\<rparr>)"
  "yash_heap 11 = Some ((CacheNode_new ''R00'' False 3)\<lparr>cache := single_cache ''user:1'' ''Yash''\<rparr>)"
  "yash_heap 12 = Some ((CacheNode_new ''R01'' False 3)\<lparr>cache := single_cache ''user:1'' ''Yash''\<rparr>)"
  by (simp_all add: yash_heap_def)

lemma sentinel_heap_at:
  "sentinel_heap 20 = Some ((CacheNode_new ''P1'' True 3)\<lparr>cache := single_cache ''k'' ''[MISS]''\<rparr>)"
  "sentinel_heap 21 = Some ((CacheNode_new ''R10'' False 3)\<lparr>cache := single_cache ''k'' ''[MISS]''\<rparr>)"
  "sentinel_heap 22 = Some ((CacheNode_new ''R11'' False 3)\<lparr>cache := single_cache ''k'' ''[MISS]''\<rparr>)"
  by (simp_all add: sentinel_heap_def)

lemma yash_shard_ok: "shard_ok main_manager yash_heap 0"
  by (simp add: shard_ok_def main_fields yash_heap_at lru_inv_single main_manager_def)

lemma sentinel_shard_ok: "shard_ok main_manager sentinel_heap 1"
  by (simp add: shard_ok_def main_fields sentinel_heap_at lru_inv_single main_manager_def)

lemma yash_answers:
  "node_answer yash_heap 10 ''user:1'' = ''Yash''"
  "node_answer yash_heap 11 ''user:1'' = ''Yash''"
  "node_answer yash_heap 12 ''user:1'' = ''Yash''"
  "node_answer yash_heap 10 ''user:5'' = MISS"
  "node_answer yash_heap 11 ''user:5'' = MISS"
  "node_answer yash_heap 12 ''user:5'' = MISS"
  by (simp_all add: node_answer_def ptr_retrieve_def yash_heap_at CacheNode_retrieve_def get_def
      single_cache_def splice_begin_def list_node_def CacheNode_new_def)

text \<open>
  Claim C3.  Let \<open>idx\<close> be the shard of the key, in a well-formed shard.  Then \<open>retrieve\<close>
  returns.  If the primary is alive and its answer is not the node-local miss string, that
  answer is the result, and no node but the primary is touched.  Otherwise (primary
  disabled, or alive and answering with the miss string) the result is the first answer
  that is not the miss string among the replicas taken in registered order, and the
  fallback string if there is none.  The fallback string differs from the node-local miss
  string.
\<close>

theorem retrieve_order:
  assumes "idx = hasher key mod length (primaries m)" and "shard_ok m h idx"
  shows "(\<exists>h'. ShardManager_retrieve hasher m h key =
            Inr (if primaryStatus m ! idx \<and> node_answer h (primaries m ! idx) key \<noteq> MISS
                 then node_answer h (primaries m ! idx) key
                 else (case first_hit (map (\<lambda>r. node_answer h r key) (replicas m ! idx)) of
                         Some val \<Rightarrow> val | None \<Rightarrow> DB_FALLBACK), h') \<and>
           (primaryStatus m ! idx \<and> node_answer h (primaries m ! idx) key \<noteq> MISS \<longrightarrow>
              (\<forall>q. q \<noteq> primaries m ! idx \<longrightarrow> h' q = h q))) \<and>
         DB_FALLBACK \<noteq> MISS"
  using retrieve_char [of idx hasher key m h] assms sentinels_differ by simp

theorem retrieve_order_witness:
  "ShardManager_insert length main_manager main_heap ''user:1'' ''Yash'' = Inr yash_heap \<and>
   (0::nat) = length ''user:1'' mod length (primaries main_manager) \<and>
   (0::nat) = length ''user:5'' mod length (primaries main_manager) \<and>
   shard_ok main_manager yash_heap 0 \<and>
   returned (ShardManager_retrieve length main_manager yash_heap ''user:1'') = Some ''Yash'' \<and>
   returned (ShardManager_retrieve length main_manager yash_heap ''user:5'') = Some DB_FALLBACK \<and>
   DB_FALLBACK \<noteq> MISS"
proof -
  have i: "(0::nat) = length ''user:1'' mod length (primaries main_manager)"
    and j: "(0::nat) = length ''user:5'' mod length (primaries main_manager)" by code_simp+
  from retrieve_order [where hasher = length and key = "''user:1''", OF i yash_shard_ok]
  have 1: "returned (ShardManager_retrieve length main_manager yash_heap ''user:1'') = Some ''Yash''"
    by (auto simp: returned_def main_fields yash_answers MISS_def)
  from retrieve_order [where hasher = length and key = "''user:5''", OF j yash_shard_ok]
  have 2: "returned (ShardManager_retrieve length main_manager yash_heap ''user:5'') = Some DB_FALLBACK"
    by (auto simp: returned_def main_fields yash_answers first_hit_def)
  from insert_yash i j yash_shard_ok 1 2 sentinels_differ show ?thesis by blast
qed

section \<open>Reads after the primary was disabled\<close>

lemma first_hit_SomeD: "first_hit vals = Some v \<Longrightarrow> v \<in> set vals \<and> v \<noteq> MISS"
  by (induction vals) (auto simp: first_hit_def split: if_splits)

lemma first_hit_exists: "v \<in> set vals \<Longrightarrow> v \<noteq> MISS \<Longrightarrow> \<exists>w. first_hit vals = Some w"
  by (induction vals) (auto simp: first_hit_def)

lemma node_holds_sentinel:
  "node_holds sentinel_heap 20 ''k'' = Some ''[MISS]''"
  "node_holds sentinel_heap 21 ''k'' = Some ''[MISS]''"
  "node_holds sentinel_heap 22 ''k'' = Some ''[MISS]''"
  by (simp_all add: node_holds_def sentinel_heap_at contents_single)

lemma node_holds_yash:
  "node_holds yash_heap 11 ''user:1'' = Some ''Yash''"
  "node_holds yash_heap 12 ''user:1'' = Some ''Yash''"
  "node_holds yash_heap 10 ''user:5'' = None"
  "node_holds yash_heap 11 ''user:5'' = None"
  "node_holds yash_heap 12 ''user:5'' = None"
  by (simp_all add: node_holds_def yash_heap_at contents_single)

lemma retrieve_sentinel_disabled:
  "returned (ShardManager_retrieve length (disablePrimary main_manager 1) sentinel_heap ''k'')
     = Some DB_FALLBACK"
  by code_simp

text \<open>
  Claim C5 as stated fails where the value a replica holds is the node-local miss string
  itself.  On the topology of \<open>main\<close>, \<open>insert("k", "[MISS]")\<close> leaves the pair in the
  primary and both replicas of shard 1 (the shard of \<open>"k"\<close> when the hash of a string is
  its length).  With the primary of shard 1 disabled, both replicas hold the value
  \<open>"[MISS]"\<close> for \<open>"k"\<close>, and \<open>retrieve("k")\<close> returns the fallback string, which is not
  that value.
\<close>

theorem failover_stored_miss_counterexample:
  "ShardManager_insert length main_manager main_heap ''k'' ''[MISS]'' = Inr sentinel_heap \<and>
   (1::nat) = length ''k'' mod length (primaries main_manager) \<and>
   shard_ok main_manager sentinel_heap 1 \<and>
   node_holds sentinel_heap 21 ''k'' = Some ''[MISS]'' \<and>
   node_holds sentinel_heap 22 ''k'' = Some ''[MISS]'' \<and>
   returned (ShardManager_retrieve length (disablePrimary main_manager 1) sentinel_heap ''k'')
     = Some DB_FALLBACK \<and>
   DB_FALLBACK \<noteq> ''[MISS]''"
proof -
  have "(1::nat) = length ''k'' mod length (primaries main_manager)" by code_simp
  moreover have "DB_FALLBACK \<noteq> ''[MISS]''" by (simp add: DB_FALLBACK_def)
  ultimately show ?thesis
    using insert_sentinel sentinel_shard_ok node_holds_sentinel retrieve_sentinel_disabled
    by blast
qed

text \<open>
  Claim C5, amended.  Let \<open>idx\<close> be the shard of the key, in a well-formed shard, and let
  the primary of that shard be disabled by \<open>disablePrimary\<close>.  If some replica of the shard
  holds for the key a value other than the node-local miss string, then \<open>retrieve\<close> returns
  a value that a replica of the shard holds for the key, and that value is not the miss
  string.  If neither the primary nor any replica of the shard holds the key, then
  \<open>retrieve\<close> returns the fallback string, which differs from the miss string.
\<close>

theorem failover_retrieve:
  assumes idx: "idx = hasher key mod length (primaries m)" and ok: "shard_ok m h idx"
  shows "((\<exists>r \<in> set (replicas m ! idx). \<exists>v. node_holds h r key = Some v \<and> v \<noteq> MISS) \<longrightarrow>
            (\<exists>v h'. ShardManager_retrieve hasher (disablePrimary m idx) h key = Inr (v, h') \<and>
                    v \<noteq> MISS \<and>
                    (\<exists>r \<in> set (replicas m ! idx). node_holds h r key = Some v))) \<and>
         ((\<forall>p \<in> set (primaries m ! idx # replicas m ! idx). node_holds h p key = None) \<longrightarrow>
            (\<exists>h'. ShardManager_retrieve hasher (disablePrimary m idx) h key =
                    Inr (DB_FALLBACK, h'))) \<and>
         DB_FALLBACK \<noteq> MISS"
proof -
  let ?m = "disablePrimary m idx" and ?rs = "replicas m ! idx"
  let ?vals = "map (\<lambda>r. node_answer h r key) ?rs"
  from ok have len: "idx < length (primaryStatus m)" by (simp add: shard_ok_def)
  then have off: "\<not> primaryStatus ?m ! idx" and same: "primaries ?m = primaries m"
    "replicas ?m = replicas m" by (simp_all add: disablePrimary_def)
  from ok have ok': "shard_ok ?m h idx" by (simp only: shard_ok_disablePrimary)
  from idx same have idx': "idx = hasher key mod length (primaries ?m)" by simp
  from retrieve_char [of idx hasher key ?m h] idx' ok' off same obtain h' where
    run: "ShardManager_retrieve hasher ?m h key =
            Inr (case first_hit ?vals of Some val \<Rightarrow> val | None \<Rightarrow> DB_FALLBACK, h')"
    by auto
  have ans: "node_answer h r key = (case node_holds h r key of None \<Rightarrow> MISS | Some v \<Rightarrow> v)"
    if "r \<in> set ?rs" for r
  proof -
    from ok that obtain n where "h r = Some n" "lru_inv (cache n)"
      unfolding shard_ok_def by (fastforce split: option.splits)
    then show ?thesis by (rule node_answer_holds)
  qed
  have part1: "\<exists>v h'. ShardManager_retrieve hasher ?m h key = Inr (v, h') \<and> v \<noteq> MISS \<and>
                 (\<exists>r \<in> set ?rs. node_holds h r key = Some v)"
    if "\<exists>r \<in> set ?rs. \<exists>v. node_holds h r key = Some v \<and> v \<noteq> MISS"
  proof -
    from that obtain r v where r: "r \<in> set ?rs" "node_holds h r key = Some v" "v \<noteq> MISS" by blast
    with ans [OF r(1)] have "v \<in> set ?vals" by force
    from first_hit_exists [OF this r(3)] obtain w where w: "first_hit ?vals = Some w" by blast
    from first_hit_SomeD [OF w] obtain r' where
      r': "r' \<in> set ?rs" "node_answer h r' key = w" "w \<noteq> MISS" by auto
    with ans [OF r'(1)] have "node_holds h r' key = Some w" by (auto split: option.splits)
    with run w r' show ?thesis by auto
  qed
  have part2: "\<exists>h'. ShardManager_retrieve hasher ?m h key = Inr (DB_FALLBACK, h')"
    if "\<forall>p \<in> set (primaries m ! idx # ?rs). node_holds h p key = None"
  proof -
    from that ans have "\<forall>a \<in> set ?vals. a = MISS" by auto
    then have "first_hit ?vals = None" by (rule first_hit_none)
    with run show ?thesis by simp
  qed
  from part1 part2 sentinels_differ show ?thesis by blast
qed

theorem failover_retrieve_witness:
  "ShardManager_insert length main_manager main_heap ''user:1'' ''Yash'' = Inr yash_heap \<and>
   (0::nat) = length ''user:1'' mod length (primaries main_manager) \<and>
   (0::nat) = length ''user:5'' mod length (primaries main_manager) \<and>
   shard_ok main_manager yash_heap 0 \<and>
   node_holds yash_heap 11 ''user:1'' = Some ''Yash'' \<and>
   node_holds yash_heap 12 ''user:1'' = Some ''Yash'' \<and>
   ''Yash'' \<noteq> MISS \<and>
   returned (ShardManager_retrieve length (disablePrimary main_manager 0) yash_heap ''user:1'')
     = Some ''Yash'' \<and>
   node_holds yash_heap 10 ''user:5'' = None \<and>
   node_holds yash_heap 11 ''user:5'' = None \<and>
   node_holds yash_heap 12 ''user:5'' = None \<and>
   returned (ShardManager_retrieve length (disablePrimary main_manager 0) yash_heap ''user:5'')
     = Some DB_FALLBACK"
proof -
  have i: "(0::nat) = length ''user:1'' mod length (primaries main_manager)"
    and j: "(0::nat) = length ''user:5'' mod length (primaries main_manager)" by code_simp+
  have y: "''Yash'' \<noteq> MISS" by (simp add: MISS_def)
  from failover_retrieve [where hasher = length and key = "''user:1''", OF i yash_shard_ok]
  have 1: "returned (ShardManager_retrieve length (disablePrimary main_manager 0) yash_heap ''user:1'')
     = Some ''Yash''"
    using node_holds_yash y by (auto simp: returned_def main_fields)
  from failover_retrieve [where hasher = length and key = "''user:5''", OF j yash_shard_ok]
  have 2: "returned (ShardManager_retrieve length (disablePrimary main_manager 0) yash_heap ''user:5'')
     = Some DB_FALLBACK"
    using node_holds_yash by (auto simp: returned_def main_fields)
  from insert_yash i j yash_shard_ok node_holds_yash y 1 2 show ?thesis by blast
qed

section \<open>A stored value equal to the miss string\<close>

lemma single_node_answer:
  "h p = Some (n\<lparr>cache := single_cache key val\<rparr>) \<Longrightarrow> ptr_retrieve h p key = Inr (val, h)"
  by (auto simp: ptr_retrieve_def CacheNode_retrieve_def get_def single_cache_def
      splice_begin_def list_node_def)

lemma getShardIndex_main: "getShardIndex hasher main_manager key = Inr (hasher key mod 2)"
proof -
  have "length (primaries main_manager) = 2" by (simp add: main_manager_def)
  then show ?thesis by (simp add: getShardIndex_def)
qed

text \<open>
  Claim C10.  On the topology \<open>main\<close> builds, for every hash function and every key:
  \<open>insert(key, "[MISS]")\<close> returns and leaves the value \<open>"[MISS]"\<close> stored for the key in the
  primary and in each replica of the key's shard, and a following \<open>retrieve(key)\<close> returns
  the fallback string rather than the stored value.
\<close>

theorem stored_sentinel_reads_as_absent:
  "\<exists>h1. ShardManager_insert hasher main_manager main_heap key MISS = Inr h1 \<and>
        node_holds h1 (primaries main_manager ! (hasher key mod 2)) key = Some MISS \<and>
        list_all (\<lambda>r. node_holds h1 r key = Some MISS) (replicas main_manager ! (hasher key mod 2)) \<and>
        returned (ShardManager_retrieve hasher main_manager h1 key) = Some DB_FALLBACK \<and>
        DB_FALLBACK \<noteq> MISS"
proof -
  have "hasher key mod 2 = 0 \<or> hasher key mod 2 = Suc 0" by arith
  then show ?thesis
  proof
    assume z: "hasher key mod 2 = 0"
    let ?h1 = "main_heap
       (10 \<mapsto> (CacheNode_new ''P0'' True 3)\<lparr>cache := single_cache key MISS\<rparr>,
        11 \<mapsto> (CacheNode_new ''R00'' False 3)\<lparr>cache := single_cache key MISS\<rparr>,
        12 \<mapsto> (CacheNode_new ''R01'' False 3)\<lparr>cache := single_cache key MISS\<rparr>)"
    have ins: "ShardManager_insert hasher main_manager main_heap key MISS = Inr ?h1"
      by (simp add: ShardManager_insert_def getShardIndex_main z main_fields ptr_insert_def
          main_heap_at CacheNode_insert_new)
    have holds: "node_holds ?h1 10 key = Some MISS" "node_holds ?h1 11 key = Some MISS"
      "node_holds ?h1 12 key = Some MISS"
      by (simp_all add: node_holds_def contents_single)
    have r: "ptr_retrieve ?h1 10 key = Inr (MISS, ?h1)" "ptr_retrieve ?h1 11 key = Inr (MISS, ?h1)"
      "ptr_retrieve ?h1 12 key = Inr (MISS, ?h1)"
      by (rule single_node_answer, simp)+
    have "ShardManager_retrieve hasher main_manager ?h1 key = Inr (DB_FALLBACK, ?h1)"
      by (simp add: ShardManager_retrieve_def getShardIndex_main z main_fields r
          retrieve_fallback_def)
    with ins holds z sentinels_differ show ?thesis by (simp add: returned_def main_fields)
  next
    assume z: "hasher key mod 2 = Suc 0"
    let ?h1 = "main_heap
       (20 \<mapsto> (CacheNode_new ''P1'' True 3)\<lparr>cache := single_cache key MISS\<rparr>,
        21 \<mapsto> (CacheNode_new ''R10'' False 3)\<lparr>cache := single_cache key MISS\<rparr>,
        22 \<mapsto> (CacheNode_new ''R11'' False 3)\<lparr>cache := single_cache key MISS\<rparr>)"
    have ins: "ShardManager_insert hasher main_manager main_heap key MISS = Inr ?h1"
      by (simp add: ShardManager_insert_def getShardIndex_main z main_fields ptr_insert_def
          main_heap_at CacheNode_insert_new)
    have holds: "node_holds ?h1 20 key = Some MISS" "node_holds ?h1 21 key = Some MISS"
      "node_holds ?h1 22 key = Some MISS"
      by (simp_all add: node_holds_def contents_single)
    have r: "ptr_retrieve ?h1 20 key = Inr (MISS, ?h1)" "ptr_retrieve ?h1 21 key = Inr (MISS, ?h1)"
      "ptr_retrieve ?h1 22 key = Inr (MISS, ?h1)"
      by (rule single_node_answer, simp)+
    have "ShardManager_retrieve hasher main_manager ?h1 key = Inr (DB_FALLBACK, ?h1)"
      by (simp add: ShardManager_retrieve_def getShardIndex_main z main_fields r
          retrieve_fallback_def)
    with ins holds z sentinels_differ show ?thesis by (simp add: returned_def main_fields)
  qed
qed

end
